theory Spec2Isabelle
  imports Main
begin

section \<open>Wide-character string utilities of toot (wcstring.py)\<close>

text \<open>
  A Python string is a sequence of Unicode code points. A character is modelled by its
  code point, a string by the list of its code points. Python's integers are unbounded,
  so widths and lengths are \<open>int\<close>.
\<close>

type_synonym uchar = nat
type_synonym ustring = "uchar list"

definition ustr :: "string \<Rightarrow> ustring" where
  "ustr s = map of_char s"

datatype error = ValueError | ZeroDivisionError

subsection \<open>The Python string operations the module calls\<close>

text \<open>
  \<open>str.strip()\<close> and \<open>str.rstrip()\<close> without argument remove the characters for which
  \<open>str.isspace\<close> holds: U+0009..U+000D, U+001C..U+0020, U+0085, U+00A0, U+1680,
  U+2000..U+200A, U+2028, U+2029, U+202F, U+205F and U+3000.
\<close>

definition isspace :: "uchar \<Rightarrow> bool" where
  "isspace c = ((9 \<le> c \<and> c \<le> 13) \<or> (28 \<le> c \<and> c \<le> 32) \<or> c = 133 \<or> c = 160
     \<or> c = 5760 \<or> (8192 \<le> c \<and> c \<le> 8202) \<or> c = 8232 \<or> c = 8233 \<or> c = 8239
     \<or> c = 8287 \<or> c = 12288)"

definition lstrip :: "ustring \<Rightarrow> ustring" where
  "lstrip s = dropWhile isspace s"

definition rstrip :: "ustring \<Rightarrow> ustring" where
  "rstrip s = rev (dropWhile isspace (rev s))"

definition strip :: "ustring \<Rightarrow> ustring" where
  "strip s = rstrip (lstrip s)"

definition SPACE :: uchar where
  "SPACE = 32"

definition ELLIPSIS :: uchar where
  "ELLIPSIS = 8230"

subsection \<open>The width oracle\<close>

text \<open>
  \<open>wcwidth\<close> and \<open>wcswidth\<close> are imported from the third-party package \<open>wcwidth\<close>. The
  width of a character is a parameter \<open>cw\<close> of every function below.
\<close>

text \<open>
  Modelled from the spec: \<open>wcswidth\<close> of the package \<open>wcwidth\<close>, which is not part of the
  repository. The width of a string is the sum of the widths of its characters, and the
  sentinel \<open>-1\<close> as soon as one character has a negative width.
\<close>

fun wcswidth_loop :: "(uchar \<Rightarrow> int) \<Rightarrow> ustring \<Rightarrow> int \<Rightarrow> int" where
  "wcswidth_loop cw [] width = width"
| "wcswidth_loop cw (char # rest) width =
     (let wcw = cw char in
      if wcw < 0 then - 1 else wcswidth_loop cw rest (width + wcw))"

definition wcswidth :: "(uchar \<Rightarrow> int) \<Rightarrow> ustring \<Rightarrow> int" where
  "wcswidth cw pwcs = wcswidth_loop cw pwcs 0"

text \<open>
  Modelled from the spec: a width table with the shape of \<open>wcwidth\<close> (negative for control
  characters, 0 for combining marks, 2 for wide East Asian characters, 1 otherwise). It
  instantiates the parameter \<open>cw\<close> at concrete inputs.
\<close>

definition wcwidth_table :: "uchar \<Rightarrow> int" where
  "wcwidth_table ucs =
     (if ucs = 0 then 0
      else if ucs < 32 \<or> (127 \<le> ucs \<and> ucs < 160) then - 1
      else if (768 \<le> ucs \<and> ucs \<le> 879) \<or> (8203 \<le> ucs \<and> ucs \<le> 8207) then 0
      else if (4352 \<le> ucs \<and> ucs \<le> 4447) \<or> (11904 \<le> ucs \<and> ucs \<le> 42191 \<and> ucs \<noteq> 12351)
            \<or> (44032 \<le> ucs \<and> ucs \<le> 55203) \<or> (63744 \<le> ucs \<and> ucs \<le> 64255)
            \<or> (65072 \<le> ucs \<and> ucs \<le> 65135) \<or> (65280 \<le> ucs \<and> ucs \<le> 65376)
            \<or> (65504 \<le> ucs \<and> ucs \<le> 65510) \<or> (131072 \<le> ucs \<and> ucs \<le> 262141) then 2
      else 1)"

subsection \<open>\<open>_wc_hard_wrap\<close>\<close>

text \<open>
  The generator's loop, with its state \<open>chars\<close>, \<open>chars_len\<close>; the result is the list of
  the chunks it yields, in order.
\<close>

fun hard_wrap_loop :: "(uchar \<Rightarrow> int) \<Rightarrow> int \<Rightarrow> ustring \<Rightarrow> ustring \<Rightarrow> int \<Rightarrow> ustring list" where
  "hard_wrap_loop cw len [] chars chars_len = (if chars \<noteq> [] then [chars] else [])"
| "hard_wrap_loop cw len (char # rest) chars chars_len =
     (let char_len = cw char in
      if chars_len + char_len > len
      then chars # hard_wrap_loop cw len rest [char] (0 + char_len)
      else hard_wrap_loop cw len rest (chars @ [char]) (chars_len + char_len))"

definition wc_hard_wrap :: "(uchar \<Rightarrow> int) \<Rightarrow> ustring \<Rightarrow> int \<Rightarrow> ustring list" where
  "wc_hard_wrap cw line len = hard_wrap_loop cw len line [] 0"

subsection \<open>The tokenizer: \<open>re.split(r"(.+?(?:[ \<bslash>t]+|$))", text)\<close>\<close>

text \<open>
  \<open>[ \<bslash>t]\<close> is a space or a tab; \<open>.\<close> is any character but the newline; \<open>$\<close> holds at
  the end of the string and just before a newline that ends the string.
\<close>

definition is_blank :: "uchar \<Rightarrow> bool" where
  "is_blank c = (c = 32 \<or> c = 9)"

definition NEWLINE :: uchar where
  "NEWLINE = 10"

text \<open>
  \<open>lazy_dot rest k\<close>: the lazy \<open>.+?\<close> has taken \<open>k\<close> characters and \<open>rest\<close> is what follows
  them. The group \<open>(?:[ \<bslash>t]+|$)\<close> is tried first (the greedy run of blanks, then \<open>$\<close>);
  when it fails \<open>.+?\<close> takes one more character. The result is the length of the match.
\<close>

fun lazy_dot :: "ustring \<Rightarrow> nat \<Rightarrow> nat option" where
  "lazy_dot [] k = Some k"
| "lazy_dot (c # rest) k =
     (if is_blank c then Some (k + length (takeWhile is_blank (c # rest)))
      else if c = NEWLINE \<and> rest = [] then Some k
      else if c = NEWLINE then None
      else lazy_dot rest (Suc k))"

text \<open>The pattern matched at the first position of \<open>text\<close>: the length of the match.\<close>

fun match_at :: "ustring \<Rightarrow> nat option" where
  "match_at [] = None"
| "match_at (c # rest) = (if c = NEWLINE then None else lazy_dot rest 1)"

lemma lazy_dot_ge: "lazy_dot rest k = Some n \<Longrightarrow> k \<le> n"
proof (induction rest arbitrary: k)
  case Nil
  then show ?case by simp
next
  case (Cons c rest)
  show ?case
  proof (cases "is_blank c \<or> c = NEWLINE")
    case True
    with Cons.prems show ?thesis by (auto split: if_splits)
  next
    case False
    with Cons.prems have "lazy_dot rest (Suc k) = Some n" by simp
    from Cons.IH [OF this] show ?thesis by simp
  qed
qed

lemma match_at_pos:
  assumes "match_at text = Some n"
  shows "0 < n"
proof (cases "text")
  case Nil
  then show ?thesis using assms by simp
next
  case (Cons c rest)
  with assms have "lazy_dot rest 1 = Some n" by (simp split: if_splits)
  from lazy_dot_ge [OF this] show ?thesis by simp
qed

text \<open>
  \<open>re.split\<close> with the whole pattern in a capturing group: the text before each match
  (\<open>piece\<close>, the characters at which no match starts), then the match, and at the end the
  text after the last match.
\<close>

function re_split_from :: "ustring \<Rightarrow> ustring \<Rightarrow> ustring list" where
  "re_split_from piece [] = [piece]"
| "re_split_from piece (c # rest) =
     (case match_at (c # rest) of
        None \<Rightarrow> re_split_from (piece @ [c]) rest
      | Some n \<Rightarrow> piece # take n (c # rest) # re_split_from [] (drop n (c # rest)))"
  by pat_completeness auto
termination
proof (relation "measure (\<lambda>(piece, text). length text)")
  fix piece :: ustring and c rest n
  assume "match_at (c # rest) = Some n"
  then have "0 < n" by (rule match_at_pos)
  then show "(([], drop n (c # rest)), (piece, c # rest)) \<in> measure (\<lambda>(piece, text). length text)"
    by simp
qed simp_all

definition re_split :: "ustring \<Rightarrow> ustring list" where
  "re_split text = re_split_from [] text"

subsection \<open>\<open>wc_wrap\<close>\<close>

text \<open>
  One turn of the loop over \<open>words\<close>: the lines it yields and the new \<open>line_words\<close> and
  \<open>line_len\<close>. \<open>line_len % len\<close> raises ZeroDivisionError when \<open>len\<close> is 0.
\<close>

definition wrap_step ::
  "(uchar \<Rightarrow> int) \<Rightarrow> int \<Rightarrow> ustring \<Rightarrow> ustring list \<Rightarrow> int \<Rightarrow> error + (ustring list \<times> ustring list \<times> int)" where
  "wrap_step cw len word line_words line_len =
     (if word = [] then Inr ([], line_words, line_len)
      else
        let word_len = wcswidth cw word;
            striped_line = rstrip (concat line_words)
        in if wcswidth cw striped_line > len \<and> len = 0 then Inl ZeroDivisionError
        else
          let line_len1 = (if wcswidth cw striped_line > len then line_len mod len else line_len);
              break = (line_words \<noteq> [] \<and> line_len1 + word_len > len
                        \<and> line_len1 + wcswidth cw (rstrip word) > len);
              yielded = (if break
                         then (if wcswidth cw striped_line \<le> len then [striped_line]
                               else wc_hard_wrap cw striped_line len)
                         else []);
              line_words1 = (if break then [] else line_words);
              line_len2 = wcswidth cw (concat line_words1) + word_len
          in Inr (yielded, line_words1 @ [word], line_len2))"

fun wrap_loop ::
  "(uchar \<Rightarrow> int) \<Rightarrow> int \<Rightarrow> ustring list \<Rightarrow> ustring list \<Rightarrow> int \<Rightarrow> error + ustring list" where
  "wrap_loop cw len [] line_words line_len =
     (if line_words \<noteq> []
      then (let line = rstrip (concat line_words) in
            if line_len \<le> len then Inr [line] else Inr (wc_hard_wrap cw line len))
      else Inr [])"
| "wrap_loop cw len (word # words) line_words line_len =
     (case wrap_step cw len word line_words line_len of
        Inl e \<Rightarrow> Inl e
      | Inr (yielded, line_words1, line_len1) \<Rightarrow>
          (case wrap_loop cw len words line_words1 line_len1 of
             Inl e \<Rightarrow> Inl e
           | Inr lines \<Rightarrow> Inr (yielded @ lines)))"

text \<open>
  The lines the generator yields when it is run to its end, or the exception it raises.
\<close>

definition wc_wrap :: "(uchar \<Rightarrow> int) \<Rightarrow> ustring \<Rightarrow> int \<Rightarrow> error + ustring list" where
  "wc_wrap cw text len = wrap_loop cw len (re_split text) [] 0"

subsection \<open>\<open>trunc\<close>, \<open>pad\<close>, \<open>fit_text\<close>\<close>

text \<open>
  The loop over \<open>reversed(text)\<close>: the value of \<open>chars_to_truncate\<close> when it ends, by
  \<open>break\<close> or at the end of the text.
\<close>

fun trunc_scan :: "(uchar \<Rightarrow> int) \<Rightarrow> int \<Rightarrow> int \<Rightarrow> ustring \<Rightarrow> nat \<Rightarrow> int \<Rightarrow> nat" where
  "trunc_scan cw text_length len [] chars_to_truncate trunc_length = chars_to_truncate"
| "trunc_scan cw text_length len (char # rest) chars_to_truncate trunc_length =
     (let chars_to_truncate1 = chars_to_truncate + 1;
          trunc_length1 = trunc_length + cw char
      in if text_length - trunc_length1 \<le> len then chars_to_truncate1
         else trunc_scan cw text_length len rest chars_to_truncate1 trunc_length1)"

text \<open>
  \<open>text[:-n]\<close> for \<open>n > 0\<close> keeps the first \<open>len(text) - n\<close> characters, and none when
  \<open>n\<close> exceeds the length.
\<close>

definition trunc :: "(uchar \<Rightarrow> int) \<Rightarrow> ustring \<Rightarrow> int \<Rightarrow> error + ustring" where
  "trunc cw text len =
     (if len < 1 then Inl ValueError
      else
        let text1 = strip text;
            text_length = wcswidth cw text1
        in if text_length \<le> len then Inr text1
        else
          let chars_to_truncate = trunc_scan cw text_length len (rev text1) 0 0;
              n = chars_to_truncate + 1
          in Inr (strip (take (length text1 - n) text1) @ [ELLIPSIS]))"

definition pad :: "(uchar \<Rightarrow> int) \<Rightarrow> ustring \<Rightarrow> int \<Rightarrow> ustring" where
  "pad cw text len =
     (let text_length = wcswidth cw text in
      if text_length < len then text @ replicate (nat (len - text_length)) SPACE
      else text)"

definition fit_text :: "(uchar \<Rightarrow> int) \<Rightarrow> ustring \<Rightarrow> int \<Rightarrow> error + ustring" where
  "fit_text cw text len =
     (let text_length = wcswidth cw text in
      if text_length > len then trunc cw text len
      else if text_length < len then Inr (pad cw text len)
      else Inr text)"

text \<open>
  The words the loop of \<open>wc_wrap\<close> works on: it skips the empty ones
  (\<open>if word == '': continue\<close>).
\<close>

definition words_consumed :: "ustring \<Rightarrow> ustring list" where
  "words_consumed text = filter (\<lambda>word. word \<noteq> []) (re_split text)"

text \<open>\<open>fit_text(fit_text(text, length), length)\<close>: an exception of the inner call is raised.\<close>

definition fit_twice :: "(uchar \<Rightarrow> int) \<Rightarrow> ustring \<Rightarrow> int \<Rightarrow> error + ustring" where
  "fit_twice cw text len =
     (case fit_text cw text len of Inl e \<Rightarrow> Inl e | Inr fitted \<Rightarrow> fit_text cw fitted len)"

subsection \<open>The width bound on a line\<close>

text \<open>
  A line respects the width \<open>len\<close>, or it is a single character wider than \<open>len\<close>.
\<close>

definition chunk_ok :: "(uchar \<Rightarrow> int) \<Rightarrow> int \<Rightarrow> ustring \<Rightarrow> bool" where
  "chunk_ok cw len line =
     (wcswidth cw line \<le> len \<or> (length line = 1 \<and> len < cw (hd line)))"

text \<open>
  What the loop keeps when no character has a negative width: \<open>line_len\<close> is the width of
  the words of the line, as soon as there is one.
\<close>

definition wrap_inv :: "(uchar \<Rightarrow> int) \<Rightarrow> ustring list \<Rightarrow> int \<Rightarrow> bool" where
  "wrap_inv cw line_words line_len =
     ((\<forall>c\<in>set (concat line_words). 0 \<le> cw c)
      \<and> (line_words \<noteq> [] \<longrightarrow> line_len = wcswidth cw (concat line_words)))"

section \<open>Properties\<close>

subsection \<open>Facts about the width of a string\<close>

lemma wcswidth_loop_nonneg:
  "\<forall>c\<in>set s. 0 \<le> cw c \<Longrightarrow> wcswidth_loop cw s w = w + sum_list (map cw s)"
  by (induction s arbitrary: w) (simp_all add: Let_def)

lemma wcswidth_loop_neg:
  "\<exists>c\<in>set s. cw c < 0 \<Longrightarrow> wcswidth_loop cw s w = - 1"
  by (induction s arbitrary: w) (auto simp: Let_def)

lemma wcswidth_sum: "\<forall>c\<in>set s. 0 \<le> cw c \<Longrightarrow> wcswidth cw s = sum_list (map cw s)"
  by (simp add: wcswidth_def wcswidth_loop_nonneg)

lemma wcswidth_neg: "\<exists>c\<in>set s. cw c < 0 \<Longrightarrow> wcswidth cw s = - 1"
  by (simp add: wcswidth_def wcswidth_loop_neg)

lemma sum_list_cw_nonneg:
  fixes cw :: "uchar \<Rightarrow> int"
  shows "\<forall>c\<in>set s. 0 \<le> cw c \<Longrightarrow> 0 \<le> sum_list (map cw s)"
  by (induction s) simp_all

lemma wcswidth_nonneg_iff: "0 \<le> wcswidth cw s \<longleftrightarrow> (\<forall>c\<in>set s. 0 \<le> cw c)"
proof (cases "\<forall>c\<in>set s. 0 \<le> cw c")
  case True
  then show ?thesis by (simp add: wcswidth_sum sum_list_cw_nonneg)
next
  case False
  then have "\<exists>c\<in>set s. cw c < 0" by (simp add: not_le)
  from wcswidth_neg [OF this] False show ?thesis by simp
qed

lemma wcswidth_Nil: "wcswidth cw [] = 0"
  by (simp add: wcswidth_def)

lemma wcswidth_append:
  "\<forall>c\<in>set s. 0 \<le> cw c \<Longrightarrow> \<forall>c\<in>set t. 0 \<le> cw c \<Longrightarrow>
   wcswidth cw (s @ t) = wcswidth cw s + wcswidth cw t"
  by (simp add: wcswidth_sum ball_Un)

lemma wcswidth_le_sum: "- 1 \<le> (b::int) \<Longrightarrow> sum_list (map cw s) \<le> b \<Longrightarrow> wcswidth cw s \<le> b"
  by (cases "\<forall>c\<in>set s. 0 \<le> cw c") (simp_all add: wcswidth_sum wcswidth_neg not_le)

subsection \<open>Facts about stripping\<close>

lemma rstrip_decomp: "\<exists>ws. s = rstrip s @ ws \<and> (\<forall>c\<in>set ws. isspace c)"
proof -
  have "rev s = takeWhile isspace (rev s) @ dropWhile isspace (rev s)" by simp
  then have "s = rev (dropWhile isspace (rev s)) @ rev (takeWhile isspace (rev s))"
    by (metis rev_append rev_rev_ident)
  moreover have "\<forall>c\<in>set (rev (takeWhile isspace (rev s))). isspace c"
    by (auto dest: set_takeWhileD)
  ultimately show ?thesis unfolding rstrip_def by blast
qed

lemma set_rstrip: "set (rstrip s) \<subseteq> set s"
  unfolding rstrip_def by (auto dest: set_dropWhileD)

lemma set_strip: "set (strip s) \<subseteq> set s"
  unfolding strip_def lstrip_def using set_rstrip by (fastforce dest: set_dropWhileD)

lemma sum_rstrip_le:
  fixes cw :: "uchar \<Rightarrow> int"
  assumes "\<forall>c\<in>set s. 0 \<le> cw c"
  shows "sum_list (map cw (rstrip s)) \<le> sum_list (map cw s)"
proof -
  obtain ws where ws: "s = rstrip s @ ws" using rstrip_decomp by blast
  then have "set ws \<subseteq> set s" by (metis set_append Un_upper2)
  with assms have "\<forall>c\<in>set ws. 0 \<le> cw c" by blast
  then have "0 \<le> sum_list (map cw ws)" by (rule sum_list_cw_nonneg)
  moreover have "sum_list (map cw s) = sum_list (map cw (rstrip s)) + sum_list (map cw ws)"
    using ws by (metis map_append sum_list_append)
  ultimately show ?thesis by simp
qed

lemma sum_lstrip_le:
  fixes cw :: "uchar \<Rightarrow> int"
  assumes "\<forall>c\<in>set s. 0 \<le> cw c"
  shows "sum_list (map cw (lstrip s)) \<le> sum_list (map cw s)"
proof -
  have s: "s = takeWhile isspace s @ lstrip s" by (simp add: lstrip_def)
  have "set (takeWhile isspace s) \<subseteq> set s" by (auto dest: set_takeWhileD)
  with assms have "\<forall>c\<in>set (takeWhile isspace s). 0 \<le> cw c" by blast
  then have "0 \<le> sum_list (map cw (takeWhile isspace s))" by (rule sum_list_cw_nonneg)
  moreover have "sum_list (map cw s)
      = sum_list (map cw (takeWhile isspace s)) + sum_list (map cw (lstrip s))"
    using s by (metis map_append sum_list_append)
  ultimately show ?thesis by simp
qed

lemma set_lstrip: "set (lstrip s) \<subseteq> set s"
  unfolding lstrip_def by (auto dest: set_dropWhileD)

lemma sum_strip_le:
  fixes cw :: "uchar \<Rightarrow> int"
  assumes "\<forall>c\<in>set s. 0 \<le> cw c"
  shows "sum_list (map cw (strip s)) \<le> sum_list (map cw s)"
proof -
  from assms set_lstrip have "\<forall>c\<in>set (lstrip s). 0 \<le> cw c" by blast
  from sum_rstrip_le [OF this] sum_lstrip_le [OF assms] show ?thesis
    by (simp add: strip_def)
qed

subsection \<open>The chunks of the hard wrap\<close>

lemma concat_hard_wrap_loop: "concat (hard_wrap_loop cw len line chars n) = chars @ line"
  by (induction line arbitrary: chars n) (simp_all add: Let_def)

lemma hard_wrap_loop_bound:
  assumes "0 \<le> len"
    and "chars_len = sum_list (map cw chars)"
    and "sum_list (map cw chars) \<le> len \<or> (\<exists>c. chars = [c] \<and> len < cw c)"
  shows "\<forall>x\<in>set (hard_wrap_loop cw len line chars chars_len).
           sum_list (map cw x) \<le> len \<or> (\<exists>c. x = [c] \<and> len < cw c)"
  using assms
proof (induction line arbitrary: chars chars_len)
  case Nil
  then show ?case by simp
next
  case (Cons char rest)
  show ?case
  proof (cases "chars_len + cw char > len")
    case True
    have "sum_list (map cw [char]) \<le> len \<or> (\<exists>c. [char] = [c] \<and> len < cw c)"
      by (simp add: not_le [symmetric])
    from Cons.IH [OF Cons.prems(1) _ this, of "0 + cw char"] Cons.prems(3) True
    show ?thesis by (simp add: Let_def)
  next
    case False
    with Cons.prems(2) have "sum_list (map cw (chars @ [char])) \<le> len" by simp
    then have "sum_list (map cw (chars @ [char])) \<le> len
        \<or> (\<exists>c. chars @ [char] = [c] \<and> len < cw c)" ..
    from Cons.IH [OF Cons.prems(1) _ this, of "chars_len + cw char"] Cons.prems(2) False
    show ?thesis by (simp add: Let_def)
  qed
qed

lemma wc_hard_wrap_bound:
  assumes "0 \<le> len"
  shows "\<forall>x\<in>set (wc_hard_wrap cw line len). chunk_ok cw len x"
proof
  fix x assume "x \<in> set (wc_hard_wrap cw line len)"
  with hard_wrap_loop_bound [where len = len and chars_len = 0 and cw = cw and chars = "[]" and line = line]
    assms
  have "sum_list (map cw x) \<le> len \<or> (\<exists>c. x = [c] \<and> len < cw c)"
    by (simp add: wc_hard_wrap_def)
  then show "chunk_ok cw len x"
    using assms wcswidth_le_sum [of len cw x] by (auto simp: chunk_ok_def)
qed

subsection \<open>Evaluation at concrete inputs\<close>

lemmas eval_defs =
  wc_wrap_def re_split_def words_consumed_def wrap_step_def wc_hard_wrap_def wcswidth_def
  trunc_def pad_def fit_text_def fit_twice_def strip_def lstrip_def rstrip_def isspace_def
  is_blank_def NEWLINE_def SPACE_def ELLIPSIS_def ustr_def wcwidth_table_def

subsection \<open>The tokenizer\<close>

lemma concat_re_split_from: "concat (re_split_from piece text) = piece @ text"
proof (induction piece "text" rule: re_split_from.induct)
  case (1 piece)
  then show ?case by simp
next
  case (2 piece c rest)
  show ?case
  proof (cases "match_at (c # rest)")
    case None
    with "2.IH"(1) show ?thesis by simp
  next
    case (Some n)
    with "2.IH"(2) have "concat (re_split_from [] (drop n (c # rest))) = drop n (c # rest)"
      by simp
    with Some show ?thesis
      by (simp del: take_Cons' drop_Cons' add: append_take_drop_id)
  qed
qed

lemma wrap_step_Nil: "wrap_step cw len [] line_words line_len = Inr ([], line_words, line_len)"
  by (simp add: wrap_step_def)

lemma wrap_loop_filter:
  "wrap_loop cw len (filter (\<lambda>word. word \<noteq> []) words) line_words line_len
     = wrap_loop cw len words line_words line_len"
proof (induction words arbitrary: line_words line_len)
  case Nil
  then show ?case by simp
next
  case (Cons word words)
  show ?case
  proof (cases "word = []")
    case True
    then show ?thesis using Cons.IH by (simp add: wrap_step_Nil split: sum.splits)
  next
    case False
    then show ?thesis using Cons.IH by (simp split: sum.splits prod.splits)
  qed
qed


subsection \<open>The first chunk of the hard wrap, and padding\<close>

lemma hard_wrap_loop_head:
  "chars \<noteq> [] \<Longrightarrow>
   \<exists>chunk chunks. hard_wrap_loop cw len line chars n = chunk # chunks
      \<and> take (length chars) chunk = chars"
proof (induction line arbitrary: chars n)
  case Nil
  then show ?case by simp
next
  case (Cons char rest)
  show ?case
  proof (cases "n + cw char > len")
    case True
    then show ?thesis by (simp add: Let_def)
  next
    case False
    have "chars @ [char] \<noteq> []" by simp
    from Cons.IH [OF this, of "n + cw char"]
    obtain chunk chunks where
      h: "hard_wrap_loop cw len rest (chars @ [char]) (n + cw char) = chunk # chunks"
      and t: "take (length (chars @ [char])) chunk = chars @ [char]" by blast
    have "take (length chars) chunk = take (length chars) (take (length (chars @ [char])) chunk)"
      by (simp add: min_def)
    also have "\<dots> = chars" by (simp only: t) simp
    finally have "take (length chars) chunk = chars" .
    with h False show ?thesis by (simp add: Let_def)
  qed
qed

lemma sum_list_spaces: "sum_list (replicate n (x::int)) = int n * x"
  by (induction n) (simp_all add: algebra_simps)

subsection \<open>The loop of \<open>wc_wrap\<close> on a text of defined width\<close>

lemma wcswidth_rstrip_le:
  assumes "\<forall>c\<in>set s. 0 \<le> cw c"
  shows "wcswidth cw (rstrip s) \<le> wcswidth cw s"
proof -
  from assms set_rstrip have "\<forall>c\<in>set (rstrip s). 0 \<le> cw c" by blast
  then have "wcswidth cw (rstrip s) = sum_list (map cw (rstrip s))" by (rule wcswidth_sum)
  moreover from assms have "wcswidth cw s = sum_list (map cw s)" by (rule wcswidth_sum)
  ultimately show ?thesis using sum_rstrip_le [OF assms] by simp
qed

lemma chunk_ok_direct: "wcswidth cw line \<le> len \<Longrightarrow> chunk_ok cw len line"
  by (simp add: chunk_ok_def)

lemma wrap_step_ok:
  assumes len: "1 \<le> len"
    and word: "\<forall>c\<in>set word. 0 \<le> cw c"
    and inv: "wrap_inv cw line_words line_len"
  shows "\<exists>yielded line_words1 line_len1.
           wrap_step cw len word line_words line_len = Inr (yielded, line_words1, line_len1)
           \<and> (\<forall>l\<in>set yielded. chunk_ok cw len l)
           \<and> wrap_inv cw line_words1 line_len1"
proof (cases "word = []")
  case True
  with inv show ?thesis by (simp add: wrap_step_def)
next
  case False
  define striped_line where "striped_line = rstrip (concat line_words)"
  define line_len1 where
    "line_len1 = (if wcswidth cw striped_line > len then line_len mod len else line_len)"
  define brk where
    "brk = (line_words \<noteq> [] \<and> line_len1 + wcswidth cw word > len
              \<and> line_len1 + wcswidth cw (rstrip word) > len)"
  define yielded where
    "yielded = (if brk then (if wcswidth cw striped_line \<le> len then [striped_line]
                              else wc_hard_wrap cw striped_line len) else [])"
  define line_words1 where "line_words1 = (if brk then [] else line_words)"
  have step: "wrap_step cw len word line_words line_len
      = Inr (yielded, line_words1 @ [word], wcswidth cw (concat line_words1) + wcswidth cw word)"
    using False len
    by (simp add: wrap_step_def Let_def striped_line_def line_len1_def brk_def yielded_def
        line_words1_def)
  from len have "0 \<le> len" by simp
  then have hw: "\<forall>x\<in>set (wc_hard_wrap cw striped_line len). chunk_ok cw len x"
    by (rule wc_hard_wrap_bound)
  have y: "\<forall>l\<in>set yielded. chunk_ok cw len l"
    using hw by (simp add: yielded_def chunk_ok_direct)
  from inv have nn1: "\<forall>c\<in>set (concat line_words1). 0 \<le> cw c"
    by (simp add: wrap_inv_def line_words1_def)
  with word have "wcswidth cw (concat line_words1 @ word)
      = wcswidth cw (concat line_words1) + wcswidth cw word"
    by (simp add: wcswidth_append)
  with nn1 word have "wrap_inv cw (line_words1 @ [word])
      (wcswidth cw (concat line_words1) + wcswidth cw word)"
    by (simp add: wrap_inv_def ball_Un)
  with step y show ?thesis by blast
qed

lemma wrap_loop_ok:
  assumes len: "1 \<le> len"
  shows "\<forall>c\<in>set (concat words). 0 \<le> cw c \<Longrightarrow> wrap_inv cw line_words line_len \<Longrightarrow>
         \<exists>lines. wrap_loop cw len words line_words line_len = Inr lines
            \<and> (\<forall>l\<in>set lines. chunk_ok cw len l)"
proof (induction words arbitrary: line_words line_len)
  case Nil
  from len have "0 \<le> len" by simp
  then have hw: "\<forall>x\<in>set (wc_hard_wrap cw (rstrip (concat line_words)) len). chunk_ok cw len x"
    by (rule wc_hard_wrap_bound)
  show ?case
  proof (cases "line_words \<noteq> [] \<and> line_len \<le> len")
    case True
    with Nil.prems(2) have "wcswidth cw (concat line_words) \<le> len"
      by (simp add: wrap_inv_def)
    moreover from Nil.prems(2) have "wcswidth cw (rstrip (concat line_words))
        \<le> wcswidth cw (concat line_words)"
      by (intro wcswidth_rstrip_le) (simp add: wrap_inv_def)
    ultimately have "chunk_ok cw len (rstrip (concat line_words))"
      by (intro chunk_ok_direct) simp
    with True show ?thesis by (simp add: Let_def)
  next
    case False
    with hw show ?thesis by (auto simp: Let_def)
  qed
next
  case (Cons word words)
  from Cons.prems(1) have w: "\<forall>c\<in>set word. 0 \<le> cw c"
    and ws: "\<forall>c\<in>set (concat words). 0 \<le> cw c" by simp_all
  from wrap_step_ok [OF len w Cons.prems(2)]
  obtain yielded line_words1 line_len1 where
    s: "wrap_step cw len word line_words line_len = Inr (yielded, line_words1, line_len1)"
    and y: "\<forall>l\<in>set yielded. chunk_ok cw len l"
    and i: "wrap_inv cw line_words1 line_len1" by blast
  from Cons.IH [OF ws i]
  obtain lines where l: "wrap_loop cw len words line_words1 line_len1 = Inr lines"
    and lo: "\<forall>l\<in>set lines. chunk_ok cw len l" by blast
  from s l have "wrap_loop cw len (word # words) line_words line_len = Inr (yielded @ lines)"
    by simp
  with y lo show ?case by auto
qed

subsection \<open>Truncation and fitting\<close>

lemma trunc_scan_spec:
  fixes cw :: "uchar \<Rightarrow> int"
  assumes "xs \<noteq> []" and "W - tlen - sum_list (map cw xs) \<le> len"
  shows "\<exists>k. trunc_scan cw W len xs n tlen = n + k \<and> 1 \<le> k \<and> k \<le> length xs
              \<and> W - tlen - sum_list (map cw (take k xs)) \<le> len"
  using assms
proof (induction xs arbitrary: n tlen)
  case Nil
  then show ?case by simp
next
  case (Cons x rest)
  show ?case
  proof (cases "W - (tlen + cw x) \<le> len")
    case True
    then have "trunc_scan cw W len (x # rest) n tlen = n + 1" by (simp add: Let_def)
    moreover from True have "W - tlen - sum_list (map cw (take 1 (x # rest))) \<le> len" by simp
    ultimately show ?thesis by (intro exI [of _ 1]) simp
  next
    case False
    with Cons.prems(2) have ne: "rest \<noteq> []" by auto
    from Cons.prems(2) have "W - (tlen + cw x) - sum_list (map cw rest) \<le> len" by simp
    from Cons.IH [OF ne this, of "n + 1"]
    obtain k where k: "trunc_scan cw W len rest (n + 1) (tlen + cw x) = n + 1 + k"
      and k1: "1 \<le> k" and k2: "k \<le> length rest"
      and k3: "W - (tlen + cw x) - sum_list (map cw (take k rest)) \<le> len" by blast
    from False k have "trunc_scan cw W len (x # rest) n tlen = n + Suc k" by (simp add: Let_def)
    moreover from k3 have "W - tlen - sum_list (map cw (take (Suc k) (x # rest))) \<le> len" by simp
    ultimately show ?thesis using k2 by (intro exI [of _ "Suc k"]) simp
  qed
qed

lemma sum_take_drop:
  fixes cw :: "uchar \<Rightarrow> int"
  shows "sum_list (map cw t) = sum_list (map cw (take m t)) + sum_list (map cw (drop m t))"
  by (metis append_take_drop_id map_append sum_list_append)

lemma sum_take_pred:
  fixes cw :: "uchar \<Rightarrow> int"
  assumes "\<forall>c\<in>set t. 1 \<le> cw c" and "1 \<le> m" and "m \<le> length t"
  shows "sum_list (map cw (take (m - 1) t)) + 1 \<le> sum_list (map cw (take m t))"
proof -
  from assms(2,3) have i: "m - 1 < length t" by simp
  from assms(2) have "take m t = take (Suc (m - 1)) t" by simp
  also from i have "\<dots> = take (m - 1) t @ [t ! (m - 1)]" by (rule take_Suc_conv_app_nth)
  finally have "sum_list (map cw (take m t))
      = sum_list (map cw (take (m - 1) t)) + cw (t ! (m - 1))" by simp
  moreover from i assms(1) have "1 \<le> cw (t ! (m - 1))" by simp
  ultimately show ?thesis by simp
qed

text \<open>The prefix that \<open>trunc\<close> keeps leaves a column for the ellipsis.\<close>

lemma trunc_prefix_width:
  fixes cw :: "uchar \<Rightarrow> int"
  assumes len: "1 \<le> len" and wide: "\<forall>c\<in>set t. 1 \<le> cw c"
    and over: "len < sum_list (map cw t)"
  shows "sum_list (map cw
           (take (length t - (trunc_scan cw (sum_list (map cw t)) len (rev t) 0 0 + 1)) t))
         \<le> len - 1"
proof -
  let ?W = "sum_list (map cw t)"
  from over len have ne: "rev t \<noteq> []" by auto
  have "?W - 0 - sum_list (map cw (rev t)) \<le> len" using len by (simp add: rev_map [symmetric])
  from trunc_scan_spec [OF ne this, of 0]
  obtain k where k: "trunc_scan cw ?W len (rev t) 0 0 = k" and k1: "1 \<le> k"
    and k2: "k \<le> length t" and k3: "?W - 0 - sum_list (map cw (take k (rev t))) \<le> len"
    by auto
  let ?m = "length t - k"
  have "take k (rev t) = rev (drop ?m t)" by (simp add: take_rev)
  then have "sum_list (map cw (take k (rev t))) = sum_list (map cw (drop ?m t))"
    by (simp add: rev_map [symmetric])
  with k3 sum_take_drop [of cw t ?m] have m: "sum_list (map cw (take ?m t)) \<le> len" by simp
  have "sum_list (map cw (take (?m - 1) t)) \<le> len - 1"
  proof (cases "?m = 0")
    case True
    with len show ?thesis by simp
  next
    case False
    then have "1 \<le> ?m" and "?m \<le> length t" by simp_all
    from sum_take_pred [OF wide this] m show ?thesis by simp
  qed
  moreover have "length t - (k + 1) = ?m - 1" by simp
  ultimately show ?thesis using k by simp
qed

lemma trunc_width_le:
  fixes cw :: "uchar \<Rightarrow> int"
  assumes len: "1 \<le> len" and wide: "\<forall>c\<in>set text. 1 \<le> cw c" and ell: "cw ELLIPSIS = 1"
  shows "\<exists>r. trunc cw text len = Inr r \<and> wcswidth cw r \<le> len \<and> (\<forall>c\<in>set r. 0 \<le> cw c)"
proof -
  let ?t = "strip text"
  from wide set_strip have wt: "\<forall>c\<in>set ?t. 1 \<le> cw c" by blast
  then have nt: "\<forall>c\<in>set ?t. 0 \<le> cw c" by auto
  then have W: "wcswidth cw ?t = sum_list (map cw ?t)" by (rule wcswidth_sum)
  show ?thesis
  proof (cases "wcswidth cw ?t \<le> len")
    case True
    with len nt show ?thesis by (simp add: trunc_def Let_def)
  next
    case False
    let ?p = "take (length ?t - (trunc_scan cw (sum_list (map cw ?t)) len (rev ?t) 0 0 + 1)) ?t"
    from False W have "len < sum_list (map cw ?t)" by simp
    from trunc_prefix_width [OF len wt this] have p: "sum_list (map cw ?p) \<le> len - 1" .
    have "set ?p \<subseteq> set ?t" by (rule set_take_subset)
    with nt have np: "\<forall>c\<in>set ?p. 0 \<le> cw c" by blast
    from sum_strip_le [OF np] p have "sum_list (map cw (strip ?p @ [ELLIPSIS])) \<le> len"
      using ell by simp
    with len have w: "wcswidth cw (strip ?p @ [ELLIPSIS]) \<le> len"
      by (intro wcswidth_le_sum) simp_all
    from np set_strip have "\<forall>c\<in>set (strip ?p). 0 \<le> cw c" by blast
    with ell have nr: "\<forall>c\<in>set (strip ?p @ [ELLIPSIS]). 0 \<le> cw c" by simp
    from False len W have "trunc cw text len = Inr (strip ?p @ [ELLIPSIS])"
      by (simp add: trunc_def Let_def)
    with w nr show ?thesis by blast
  qed
qed

lemma wcswidth_pad:
  assumes "0 \<le> wcswidth cw text" and "cw SPACE = 1" and "wcswidth cw text < len"
  shows "wcswidth cw (pad cw text len) = len"
proof -
  from assms(1) have nn: "\<forall>c\<in>set text. 0 \<le> cw c" by (simp add: wcswidth_nonneg_iff)
  let ?n = "nat (len - wcswidth cw text)"
  have p: "pad cw text len = text @ replicate ?n SPACE"
    using assms(3) by (simp add: pad_def Let_def)
  have "\<forall>c\<in>set (text @ replicate ?n SPACE). 0 \<le> cw c"
    using nn assms(2) by auto
  then have "wcswidth cw (text @ replicate ?n SPACE)
      = sum_list (map cw (text @ replicate ?n SPACE))" by (rule wcswidth_sum)
  also have "\<dots> = sum_list (map cw text) + int ?n * cw SPACE"
    by (simp add: sum_list_spaces)
  also have "\<dots> = wcswidth cw text + int ?n"
    using nn assms(2) by (simp add: wcswidth_sum)
  also have "\<dots> = len" using assms(3) by simp
  finally show ?thesis by (simp add: p)
qed

text \<open>\<open>fit_text\<close> on a text that is not wider than the length.\<close>

lemma fit_text_narrow:
  assumes "0 \<le> wcswidth cw text" and "cw SPACE = 1" and "wcswidth cw text \<le> len"
  shows "fit_text cw text len = Inr (pad cw text len)"
    and "wcswidth cw (pad cw text len) = len"
proof -
  show "fit_text cw text len = Inr (pad cw text len)"
    using assms(3) by (simp add: fit_text_def pad_def Let_def)
  show "wcswidth cw (pad cw text len) = len"
  proof (cases "wcswidth cw text < len")
    case True
    from wcswidth_pad [OF assms(1,2) this] show ?thesis .
  next
    case False
    with assms(3) show ?thesis by (simp add: pad_def Let_def)
  qed
qed

section \<open>The claims\<close>

text \<open>
  C2: for every line and every length, the chunks yielded by \<open>_wc_hard_wrap\<close>,
  concatenated in order, are the line itself: no character is dropped, added, reordered
  or split, and the chunks are contiguous pieces of the line.
\<close>

theorem hard_wrap_concat: "concat (wc_hard_wrap cw line len) = line"
  by (simp add: wc_hard_wrap_def concat_hard_wrap_loop)

theorem hard_wrap_concat_witness:
  "concat (wc_hard_wrap wcwidth_table (ustr ''abcdefg'') 3) = ustr ''abcdefg''
   \<and> wc_hard_wrap wcwidth_table (ustr ''abcdefg'') 3 = [ustr ''abc'', ustr ''def'', ustr ''g'']"
proof -
  have w: "wc_hard_wrap wcwidth_table (ustr ''abcdefg'') 3 = [ustr ''abc'', ustr ''def'', ustr ''g'']"
    by (simp add: eval_defs)
  from hard_wrap_concat [of wcwidth_table "ustr ''abcdefg''" 3] w show ?thesis by (rule conjI)
qed

text \<open>
  C9: for every text, the tokens of \<open>re.split\<close> concatenated in order are the text, also
  once the empty tokens are left out; the words the loop of \<open>wc_wrap\<close> works on are the
  non-empty tokens, none of which is empty.
\<close>

theorem tokens_round_trip:
  "concat (re_split text) = text
   \<and> concat (words_consumed text) = text
   \<and> [] \<notin> set (words_consumed text)
   \<and> wc_wrap cw text len = wrap_loop cw len (words_consumed text) [] 0"
proof -
  have a: "concat (re_split text) = text"
    by (simp add: re_split_def concat_re_split_from)
  have "concat (filter (\<lambda>word. word \<noteq> []) ws) = concat ws" for ws :: "ustring list"
    by (induction ws) simp_all
  with a have b: "concat (words_consumed text) = text"
    by (simp add: words_consumed_def)
  have c: "[] \<notin> set (words_consumed text)"
    by (simp add: words_consumed_def)
  have d: "wc_wrap cw text len = wrap_loop cw len (words_consumed text) [] 0"
    by (simp add: wc_wrap_def words_consumed_def wrap_loop_filter)
  from a b c d show ?thesis by blast
qed

theorem tokens_round_trip_witness:
  "concat (re_split (ustr ''ab  c'')) = ustr ''ab  c''
   \<and> words_consumed (ustr ''ab  c'') = [ustr ''ab  '', ustr ''c'']"
proof -
  have w: "words_consumed (ustr ''ab  c'') = [ustr ''ab  '', ustr ''c'']"
    by (simp add: eval_defs)
  from tokens_round_trip [of "ustr ''ab  c''" wcwidth_table 3]
  have "concat (re_split (ustr ''ab  c'')) = ustr ''ab  c''" by (rule conjunct1)
  from this w show ?thesis by (rule conjI)
qed

text \<open>
  C10: for every length of at least 1, when the first character of a line is wider than
  the length, \<open>_wc_hard_wrap\<close> yields the empty string first and then a chunk that
  begins with that character; so \<open>wc_wrap\<close> of a single such character (not a white
  space) yields the empty line and then the character.
\<close>

theorem hard_wrap_leading_empty:
  assumes "1 \<le> len" and "len < cw c"
  shows "(\<exists>chunk chunks. wc_hard_wrap cw (c # rest) len = [] # chunk # chunks
            \<and> chunk \<noteq> [] \<and> hd chunk = c)
         \<and> (\<not> isspace c \<longrightarrow> wc_wrap cw [c] len = Inr [[], [c]])"
proof
  have "[c] \<noteq> []" by simp
  from hard_wrap_loop_head [OF this, of cw len rest "0 + cw c"]
  obtain chunk chunks where
    h: "hard_wrap_loop cw len rest [c] (0 + cw c) = chunk # chunks"
    and t: "take (length [c]) chunk = [c]" by blast
  from t have "chunk \<noteq> [] \<and> hd chunk = c" by (cases chunk) simp_all
  with h assms show "\<exists>chunk chunks. wc_hard_wrap cw (c # rest) len = [] # chunk # chunks
            \<and> chunk \<noteq> [] \<and> hd chunk = c"
    by (simp add: wc_hard_wrap_def Let_def)
next
  show "\<not> isspace c \<longrightarrow> wc_wrap cw [c] len = Inr [[], [c]]"
  proof
    assume ns: "\<not> isspace c"
    then have nl: "c \<noteq> NEWLINE" by (auto simp: isspace_def NEWLINE_def)
    have split: "re_split [c] = [[], [c], []]"
      using nl by (simp add: re_split_def)
    have w: "wcswidth cw [c] = cw c" using assms by (simp add: wcswidth_def Let_def)
    have r: "rstrip [c] = [c]" using ns by (simp add: rstrip_def)
    have r0: "rstrip [] = []" by (simp add: rstrip_def)
    have hw: "wc_hard_wrap cw [c] len = [[], [c]]"
      using assms by (simp add: wc_hard_wrap_def Let_def)
    show "wc_wrap cw [c] len = Inr [[], [c]]"
      using assms by (simp add: wc_wrap_def split wrap_step_def w r r0 hw wcswidth_Nil Let_def)
  qed
qed

theorem hard_wrap_leading_empty_witness:
  "(1::int) \<le> 1 \<and> 1 < wcwidth_table 23383 \<and> \<not> isspace 23383
   \<and> wc_wrap wcwidth_table [23383] 1 = Inr [[], [23383]]
   \<and> (\<exists>chunk chunks. wc_hard_wrap wcwidth_table [23383, 97] 1 = [] # chunk # chunks
         \<and> chunk \<noteq> [] \<and> hd chunk = 23383)"
proof -
  have a: "(1::int) \<le> 1" by simp
  have b: "1 < wcwidth_table 23383" by (simp add: wcwidth_table_def)
  have c: "\<not> isspace 23383" by (simp add: isspace_def)
  note h = hard_wrap_leading_empty [where cw = wcwidth_table and c = 23383 and len = 1
      and rest = "[97]", OF a b]
  from h have h1: "\<exists>chunk chunks. wc_hard_wrap wcwidth_table [23383, 97] 1 = [] # chunk # chunks
         \<and> chunk \<noteq> [] \<and> hd chunk = 23383" by (rule conjunct1)
  from h have "\<not> isspace 23383 \<longrightarrow> wc_wrap wcwidth_table [23383] 1 = Inr [[], [23383]]"
    by (rule conjunct2)
  from this c have w: "wc_wrap wcwidth_table [23383] 1 = Inr [[], [23383]]" by (rule mp)
  from a b c w h1 show ?thesis by (intro conjI)
qed

text \<open>
  C7: for a text of defined (non-negative) width and any length, with the space one column
  wide, the width of \<open>pad(text, length)\<close> is the maximum of the width of the text and
  the length; the text is a prefix of the result, which is the text followed by
  \<open>length - width\<close> spaces when the width is below the length and the text otherwise.
\<close>

theorem pad_width:
  assumes "0 \<le> wcswidth cw text" and "cw SPACE = 1"
  shows "wcswidth cw (pad cw text len) = max (wcswidth cw text) len
         \<and> take (length text) (pad cw text len) = text
         \<and> (wcswidth cw text < len \<longrightarrow>
              pad cw text len = text @ replicate (nat (len - wcswidth cw text)) SPACE)
         \<and> (len \<le> wcswidth cw text \<longrightarrow> pad cw text len = text)"
proof (cases "wcswidth cw text < len")
  case True
  let ?n = "nat (len - wcswidth cw text)"
  have p: "pad cw text len = text @ replicate ?n SPACE"
    using True by (simp add: pad_def Let_def)
  from wcswidth_pad [OF assms True] have "wcswidth cw (pad cw text len) = len" .
  with True p show ?thesis by simp
next
  case False
  then have "pad cw text len = text" by (simp add: pad_def Let_def)
  with False show ?thesis by simp
qed

theorem pad_width_witness:
  "0 \<le> wcswidth wcwidth_table (ustr ''hi'') \<and> wcwidth_table SPACE = 1
   \<and> pad wcwidth_table (ustr ''hi'') 5 = ustr ''hi   ''
   \<and> wcswidth wcwidth_table (pad wcwidth_table (ustr ''hi'') 5) = max (wcswidth wcwidth_table (ustr ''hi'')) 5"
proof -
  have a: "0 \<le> wcswidth wcwidth_table (ustr ''hi'')" by (simp add: eval_defs)
  have b: "wcwidth_table SPACE = 1" by (simp add: eval_defs)
  have c: "pad wcwidth_table (ustr ''hi'') 5 = ustr ''hi   ''"
    by (simp add: eval_defs numeral_3_eq_3)
  from pad_width [OF a b, of 5] have "wcswidth wcwidth_table (pad wcwidth_table (ustr ''hi'') 5)
      = max (wcswidth wcwidth_table (ustr ''hi'')) 5" by (rule conjunct1)
  with a b c show ?thesis by (intro conjI)
qed

text \<open>
  C6, as amended: \<open>trunc\<close> raises ValueError exactly when the length is below 1, whatever
  the text and the widths; \<open>fit_text\<close> raises it exactly when the length is below 1 and
  the width of the text exceeds the length (only then does it call \<open>trunc\<close>); in every
  other case both return a string.
\<close>

theorem trunc_fit_errors:
  "(len < 1 \<longrightarrow> trunc cw text len = Inl ValueError)
   \<and> (1 \<le> len \<longrightarrow> (\<exists>r. trunc cw text len = Inr r))
   \<and> (len < 1 \<and> len < wcswidth cw text \<longrightarrow> fit_text cw text len = Inl ValueError)
   \<and> (\<not> (len < 1 \<and> len < wcswidth cw text) \<longrightarrow> (\<exists>r. fit_text cw text len = Inr r))"
proof -
  have a: "len < 1 \<longrightarrow> trunc cw text len = Inl ValueError" by (simp add: trunc_def)
  have b: "1 \<le> len \<longrightarrow> (\<exists>r. trunc cw text len = Inr r)" by (simp add: trunc_def Let_def)
  from a have c: "len < 1 \<and> len < wcswidth cw text \<longrightarrow> fit_text cw text len = Inl ValueError"
    by (simp add: fit_text_def Let_def)
  from b have d: "\<not> (len < 1 \<and> len < wcswidth cw text) \<longrightarrow> (\<exists>r. fit_text cw text len = Inr r)"
    by (auto simp: fit_text_def Let_def)
  from a b c d show ?thesis by blast
qed

theorem trunc_fit_errors_witness:
  "trunc wcwidth_table (ustr ''x'') 0 = Inl ValueError
   \<and> (\<exists>r. trunc wcwidth_table (ustr ''x'') 1 = Inr r)
   \<and> fit_text wcwidth_table (ustr ''x'') 0 = Inl ValueError
   \<and> fit_text wcwidth_table (ustr ''x'') 2 = Inr (ustr ''x '')"
proof -
  have w: "wcswidth wcwidth_table (ustr ''x'') = 1" by (simp add: eval_defs)
  have f: "fit_text wcwidth_table (ustr ''x'') 2 = Inr (ustr ''x '')"
    by (simp add: eval_defs numeral_3_eq_3)
  from trunc_fit_errors [of 0 wcwidth_table "ustr ''x''"] trunc_fit_errors [of 1 wcwidth_table "ustr ''x''"] w f
  show ?thesis by simp
qed

text \<open>
  C6 as stated fails: \<open>fit_text("", 0)\<close> has a length below 1 and returns the empty
  string.
\<close>

theorem fit_no_error_counterexample:
  "(0::int) < 1 \<and> fit_text wcwidth_table [] 0 = Inr []"
  by (simp add: eval_defs)

text \<open>
  C8: where every character of the text is one column wide,
  \<open>wc_wrap("the quick brown fox", 10)\<close> yields "the quick" and then "brown fox".
\<close>

theorem wrap_quick_brown_fox:
  assumes "\<forall>c\<in>set (ustr ''the quick brown fox''). cw c = 1"
  shows "wc_wrap cw (ustr ''the quick brown fox'') 10 = Inr [ustr ''the quick'', ustr ''brown fox'']"
  using assms by (simp add: eval_defs)

theorem wrap_quick_brown_fox_witness:
  "list_all (\<lambda>c. wcwidth_table c = 1) (ustr ''the quick brown fox'')
   \<and> wc_wrap wcwidth_table (ustr ''the quick brown fox'') 10
       = Inr [ustr ''the quick'', ustr ''brown fox'']"
proof -
  have a: "\<forall>c\<in>set (ustr ''the quick brown fox''). wcwidth_table c = 1"
    by (simp add: eval_defs)
  then have b: "list_all (\<lambda>c. wcwidth_table c = 1) (ustr ''the quick brown fox'')"
    by (simp only: list_all_iff)
  from b wrap_quick_brown_fox [OF a] show ?thesis by (rule conjI)
qed

text \<open>
  C1, as amended: for every text of defined (non-negative) width and every length of at
  least 1, \<open>wc_wrap\<close> returns, and every line it yields has a width of at most the
  length or is a single character wider than the length.
\<close>

theorem wrap_width_bound:
  assumes "1 \<le> len" and "0 \<le> wcswidth cw text"
  shows "\<exists>lines. wc_wrap cw text len = Inr lines
           \<and> (\<forall>line\<in>set lines. wcswidth cw line \<le> len
                 \<or> (length line = 1 \<and> len < cw (hd line)))"
proof -
  have "concat (re_split text) = text" by (simp add: re_split_def concat_re_split_from)
  with assms(2) have nn: "\<forall>c\<in>set (concat (re_split text)). 0 \<le> cw c"
    by (simp add: wcswidth_nonneg_iff)
  have "wrap_inv cw [] 0" by (simp add: wrap_inv_def)
  from wrap_loop_ok [OF assms(1) nn this]
  obtain lines where "wc_wrap cw text len = Inr lines"
    and "\<forall>l\<in>set lines. chunk_ok cw len l" by (auto simp: wc_wrap_def)
  then show ?thesis by (auto simp: chunk_ok_def)
qed

theorem wrap_width_bound_witness:
  "(1::int) \<le> 3 \<and> 0 \<le> wcswidth wcwidth_table (ustr ''ab cdefg'')
   \<and> wc_wrap wcwidth_table (ustr ''ab cdefg'') 3 = Inr [ustr ''ab'', ustr ''cde'', ustr ''fg'']
   \<and> (\<exists>lines. wc_wrap wcwidth_table (ustr ''ab cdefg'') 3 = Inr lines
         \<and> (\<forall>line\<in>set lines. wcswidth wcwidth_table line \<le> 3
               \<or> (length line = 1 \<and> 3 < wcwidth_table (hd line))))"
proof -
  have a: "(1::int) \<le> 3" by simp
  have b: "0 \<le> wcswidth wcwidth_table (ustr ''ab cdefg'')" by (simp add: eval_defs)
  have c: "wc_wrap wcwidth_table (ustr ''ab cdefg'') 3 = Inr [ustr ''ab'', ustr ''cde'', ustr ''fg'']"
    by (simp add: eval_defs)
  from a b c wrap_width_bound [OF a b] show ?thesis by (intro conjI)
qed

text \<open>
  C1 as stated fails where the width of the text is not defined: the tab is a control
  character, of width \<open>-1\<close>, so \<open>line_len\<close> is \<open>-1\<close> and
  \<open>wc_wrap("aaaaaaaaaa\<bslash>t", 5)\<close> yields the line "aaaaaaaaaa", ten columns wide and ten
  characters long.
\<close>

theorem wrap_width_counterexample:
  "(1::int) \<le> 5
   \<and> wc_wrap wcwidth_table (ustr ''aaaaaaaaaa'' @ [9]) 5 = Inr [ustr ''aaaaaaaaaa'']
   \<and> wcswidth wcwidth_table (ustr ''aaaaaaaaaa'') = 10
   \<and> \<not> chunk_ok wcwidth_table 5 (ustr ''aaaaaaaaaa'')"
  by (simp add: eval_defs chunk_ok_def)

text \<open>
  C3, as amended: for a text of defined (non-negative) width and a length of at least 1,
  with the space and the ellipsis one column wide: when the text is narrower than the
  length, \<open>fit_text\<close> returns \<open>pad(text, length)\<close>, the text followed by
  \<open>length - width\<close> spaces; when its width is the length, \<open>fit_text\<close> returns the text
  unchanged; in both cases the width of the result is exactly the length. When the text
  is wider than the length, \<open>fit_text\<close> returns what \<open>trunc\<close> returns, and where every
  character of the text is at least one column wide that string has a width of at most
  the length.
\<close>

theorem fit_width:
  assumes "1 \<le> len" and "0 \<le> wcswidth cw text" and "cw SPACE = 1" and "cw ELLIPSIS = 1"
  shows "(wcswidth cw text < len \<longrightarrow>
            fit_text cw text len = Inr (pad cw text len)
            \<and> pad cw text len = text @ replicate (nat (len - wcswidth cw text)) SPACE)
         \<and> (wcswidth cw text = len \<longrightarrow> fit_text cw text len = Inr text)
         \<and> (wcswidth cw text \<le> len \<longrightarrow>
            (\<exists>r. fit_text cw text len = Inr r \<and> wcswidth cw r = len))
         \<and> (len < wcswidth cw text \<longrightarrow> fit_text cw text len = trunc cw text len)
         \<and> (len < wcswidth cw text \<and> (\<forall>c\<in>set text. 1 \<le> cw c) \<longrightarrow>
              (\<exists>r. fit_text cw text len = Inr r \<and> wcswidth cw r \<le> len))"
proof (intro conjI impI)
  assume "wcswidth cw text < len"
  then show "fit_text cw text len = Inr (pad cw text len)"
    by (simp add: fit_text_def Let_def)
next
  assume "wcswidth cw text < len"
  then show "pad cw text len = text @ replicate (nat (len - wcswidth cw text)) SPACE"
    by (simp add: pad_def Let_def)
next
  assume "wcswidth cw text = len"
  then show "fit_text cw text len = Inr text" by (simp add: fit_text_def Let_def)
next
  assume "wcswidth cw text \<le> len"
  from fit_text_narrow [OF assms(2,3) this]
  show "\<exists>r. fit_text cw text len = Inr r \<and> wcswidth cw r = len" by blast
next
  assume "len < wcswidth cw text"
  then show "fit_text cw text len = trunc cw text len" by (simp add: fit_text_def Let_def)
next
  assume a: "len < wcswidth cw text \<and> (\<forall>c\<in>set text. 1 \<le> cw c)"
  then have f: "fit_text cw text len = trunc cw text len" by (simp add: fit_text_def Let_def)
  from a have "\<forall>c\<in>set text. 1 \<le> cw c" ..
  from trunc_width_le [OF assms(1) this assms(4)] f
  show "\<exists>r. fit_text cw text len = Inr r \<and> wcswidth cw r \<le> len" by auto
qed

theorem fit_width_witness:
  "fit_text wcwidth_table (ustr ''hi'') 5 = Inr (pad wcwidth_table (ustr ''hi'') 5)
   \<and> pad wcwidth_table (ustr ''hi'') 5 = ustr ''hi   ''
   \<and> (\<exists>r. fit_text wcwidth_table (ustr ''hi'') 5 = Inr r \<and> wcswidth wcwidth_table r = 5)
   \<and> fit_text wcwidth_table (ustr ''hello'') 5 = Inr (ustr ''hello'')
   \<and> fit_text wcwidth_table (ustr ''hello world'') 7 = trunc wcwidth_table (ustr ''hello world'') 7
   \<and> (\<exists>r. fit_text wcwidth_table (ustr ''hello world'') 7 = Inr r
         \<and> wcswidth wcwidth_table r \<le> 7)"
proof -
  have s: "wcwidth_table SPACE = 1" and e: "wcwidth_table ELLIPSIS = 1"
    by (simp_all add: eval_defs)
  have a1: "(1::int) \<le> 5" and a2: "(1::int) \<le> 7" by simp_all
  have b1: "0 \<le> wcswidth wcwidth_table (ustr ''hi'')"
    and c1: "wcswidth wcwidth_table (ustr ''hi'') < 5"
    and c1': "wcswidth wcwidth_table (ustr ''hi'') \<le> 5"
    by (simp_all add: eval_defs)
  have b3: "0 \<le> wcswidth wcwidth_table (ustr ''hello'')"
    and c3: "wcswidth wcwidth_table (ustr ''hello'') = 5"
    by (simp_all add: eval_defs)
  have b2: "0 \<le> wcswidth wcwidth_table (ustr ''hello world'')"
    and c2: "7 < wcswidth wcwidth_table (ustr ''hello world'')"
    by (simp_all add: eval_defs)
  have d2: "\<forall>c\<in>set (ustr ''hello world''). 1 \<le> wcwidth_table c"
    by (simp add: eval_defs)
  have v: "pad wcwidth_table (ustr ''hi'') 5 = ustr ''hi   ''"
    by (simp add: eval_defs numeral_3_eq_3)
  note t1 = fit_width [OF a1 b1 s e]
  note t2 = fit_width [OF a2 b2 s e]
  note t3 = fit_width [OF a1 b3 s e]
  from t1 c1 have "fit_text wcwidth_table (ustr ''hi'') 5 = Inr (pad wcwidth_table (ustr ''hi'') 5)
      \<and> pad wcwidth_table (ustr ''hi'') 5
          = ustr ''hi'' @ replicate (nat (5 - wcswidth wcwidth_table (ustr ''hi''))) SPACE"
    by (rule conjunct1 [THEN mp])
  then have w0: "fit_text wcwidth_table (ustr ''hi'') 5 = Inr (pad wcwidth_table (ustr ''hi'') 5)"
    by (rule conjunct1)
  from t1 c1' have w1: "\<exists>r. fit_text wcwidth_table (ustr ''hi'') 5 = Inr r
      \<and> wcswidth wcwidth_table r = 5"
    by (rule conjunct2 [THEN conjunct2, THEN conjunct1, THEN mp])
  from t3 c3 have w4: "fit_text wcwidth_table (ustr ''hello'') 5 = Inr (ustr ''hello'')"
    by (rule conjunct2 [THEN conjunct1, THEN mp])
  from t2 c2 have w2: "fit_text wcwidth_table (ustr ''hello world'') 7
      = trunc wcwidth_table (ustr ''hello world'') 7"
    by (rule conjunct2 [THEN conjunct2, THEN conjunct2, THEN conjunct1, THEN mp])
  from c2 d2 have "7 < wcswidth wcwidth_table (ustr ''hello world'')
      \<and> (\<forall>c\<in>set (ustr ''hello world''). 1 \<le> wcwidth_table c)" by (rule conjI)
  with t2 have w3: "\<exists>r. fit_text wcwidth_table (ustr ''hello world'') 7 = Inr r
      \<and> wcswidth wcwidth_table r \<le> 7"
    by (rule conjunct2 [THEN conjunct2, THEN conjunct2, THEN conjunct2, THEN mp])
  from w0 v w1 w4 w2 w3 show ?thesis by (intro conjI)
qed

text \<open>
  C3 as stated fails: \<open>fit_text("hello world", 7)\<close> is "hello" and the ellipsis, six
  columns wide; \<open>trunc\<close> strips the white space before the ellipsis and \<open>fit_text\<close>
  does not pad what \<open>trunc\<close> returns.
\<close>

theorem fit_width_counterexample:
  "(1::int) \<le> 7 \<and> 0 \<le> wcswidth wcwidth_table (ustr ''hello world'')
   \<and> fit_text wcwidth_table (ustr ''hello world'') 7 = Inr (ustr ''hello'' @ [ELLIPSIS])
   \<and> wcswidth wcwidth_table (ustr ''hello'' @ [ELLIPSIS]) = 6
   \<and> wcswidth wcwidth_table (ustr ''hello'' @ [ELLIPSIS]) \<noteq> 7"
  by (simp add: eval_defs)

text \<open>
  C4, as amended: for a text of defined (non-negative) width and a length of at least 1,
  with the space and the ellipsis one column wide: when the text is not wider than the
  length, fitting the fitted text gives the fitted text again; when it is wider and every
  character of it is at least one column wide, fitting the fitted text pads it with
  spaces to the length.
\<close>

theorem fit_idempotent:
  assumes "1 \<le> len" and "0 \<le> wcswidth cw text" and "cw SPACE = 1" and "cw ELLIPSIS = 1"
  shows "(wcswidth cw text \<le> len \<longrightarrow> fit_twice cw text len = fit_text cw text len)
         \<and> (len < wcswidth cw text \<and> (\<forall>c\<in>set text. 1 \<le> cw c) \<longrightarrow>
              (\<exists>r. fit_text cw text len = Inr r \<and> fit_twice cw text len = Inr (pad cw r len)))"
proof (intro conjI impI)
  assume "wcswidth cw text \<le> len"
  from fit_text_narrow [OF assms(2,3) this]
  have f: "fit_text cw text len = Inr (pad cw text len)"
    and w: "wcswidth cw (pad cw text len) = len" .
  from w have "fit_text cw (pad cw text len) len = Inr (pad cw text len)"
    by (simp add: fit_text_def Let_def)
  with f show "fit_twice cw text len = fit_text cw text len" by (simp add: fit_twice_def)
next
  assume a: "len < wcswidth cw text \<and> (\<forall>c\<in>set text. 1 \<le> cw c)"
  then have f: "fit_text cw text len = trunc cw text len" by (simp add: fit_text_def Let_def)
  from a have "\<forall>c\<in>set text. 1 \<le> cw c" ..
  from trunc_width_le [OF assms(1) this assms(4)]
  obtain r where r: "trunc cw text len = Inr r" and w: "wcswidth cw r \<le> len"
    and n: "\<forall>c\<in>set r. 0 \<le> cw c" by blast
  from n have "0 \<le> wcswidth cw r" by (simp add: wcswidth_nonneg_iff)
  from fit_text_narrow(1) [OF this assms(3) w] f r
  show "\<exists>r. fit_text cw text len = Inr r \<and> fit_twice cw text len = Inr (pad cw r len)"
    by (simp add: fit_twice_def)
qed

theorem fit_idempotent_witness:
  "fit_twice wcwidth_table (ustr ''hi'') 5 = fit_text wcwidth_table (ustr ''hi'') 5
   \<and> fit_twice wcwidth_table (ustr ''hi'') 5 = Inr (ustr ''hi   '')
   \<and> (\<exists>r. fit_text wcwidth_table (ustr ''hello world'') 7 = Inr r
         \<and> fit_twice wcwidth_table (ustr ''hello world'') 7 = Inr (pad wcwidth_table r 7))"
proof -
  have s: "wcwidth_table SPACE = 1" and e: "wcwidth_table ELLIPSIS = 1"
    by (simp_all add: eval_defs)
  have a1: "(1::int) \<le> 5" and a2: "(1::int) \<le> 7" by simp_all
  have b1: "0 \<le> wcswidth wcwidth_table (ustr ''hi'')"
    and c1: "wcswidth wcwidth_table (ustr ''hi'') \<le> 5"
    by (simp_all add: eval_defs)
  have b2: "0 \<le> wcswidth wcwidth_table (ustr ''hello world'')"
    and c2: "7 < wcswidth wcwidth_table (ustr ''hello world'')"
    by (simp_all add: eval_defs)
  have d2: "\<forall>c\<in>set (ustr ''hello world''). 1 \<le> wcwidth_table c"
    by (simp add: eval_defs)
  have v: "fit_twice wcwidth_table (ustr ''hi'') 5 = Inr (ustr ''hi   '')"
    by (simp add: eval_defs numeral_3_eq_3)
  note t1 = fit_idempotent [OF a1 b1 s e]
  note t2 = fit_idempotent [OF a2 b2 s e]
  from t1 c1 have w1: "fit_twice wcwidth_table (ustr ''hi'') 5
      = fit_text wcwidth_table (ustr ''hi'') 5" by (rule conjunct1 [THEN mp])
  from c2 d2 have "7 < wcswidth wcwidth_table (ustr ''hello world'')
      \<and> (\<forall>c\<in>set (ustr ''hello world''). 1 \<le> wcwidth_table c)" by (rule conjI)
  with t2 have w2: "\<exists>r. fit_text wcwidth_table (ustr ''hello world'') 7 = Inr r
      \<and> fit_twice wcwidth_table (ustr ''hello world'') 7 = Inr (pad wcwidth_table r 7)"
    by (rule conjunct2 [THEN mp])
  from w1 v w2 show ?thesis by (intro conjI)
qed

text \<open>
  C4 as stated fails: \<open>fit_text("hello world", 7)\<close> is "hello" and the ellipsis, and
  fitting that string to 7 appends a space to it.
\<close>

theorem fit_idempotent_counterexample:
  "(1::int) \<le> 7 \<and> 0 \<le> wcswidth wcwidth_table (ustr ''hello world'')
   \<and> fit_text wcwidth_table (ustr ''hello world'') 7 = Inr (ustr ''hello'' @ [ELLIPSIS])
   \<and> fit_twice wcwidth_table (ustr ''hello world'') 7
       = Inr (ustr ''hello'' @ [ELLIPSIS, SPACE])
   \<and> fit_twice wcwidth_table (ustr ''hello world'') 7
       \<noteq> fit_text wcwidth_table (ustr ''hello world'') 7"
  by (simp add: eval_defs)

text \<open>
  C5 at a text with a combining mark: \<open>trunc("a\<bslash>u0301bc", 1)\<close>. The text is stripped
  already and three columns wide; the scan stops after "c" and "b", the additional
  character removed for the ellipsis is the combining mark, of width 0, and the result
  "a" followed by the ellipsis is two columns wide, more than the length 1.
\<close>

theorem trunc_combining_mark:
  "strip [97, 769, 98, 99] = [97, 769, 98, 99]
   \<and> wcswidth wcwidth_table [97, 769, 98, 99] = 3
   \<and> trunc wcwidth_table [97, 769, 98, 99] 1 = Inr [97, ELLIPSIS]
   \<and> wcswidth wcwidth_table [97, ELLIPSIS] = 2"
  by (simp add: eval_defs)

end
